theory Spec2Isabelle
  imports Main "HOL-Library.Word"
begin

unbundle bit_operations_syntax

section \<open>The firmware encryption tool (tools/encrypt\_firmware.py)\<close>

text \<open>
  The tool reads a firmware image, pads it (PKCS#7), encrypts it with AES in CBC mode
  under the module constant \<open>AES_KEY\<close> and a fresh random IV, and writes
  \<open>IV || ciphertext\<close>; its decrypt mode reverses this. The embedding below follows the
  Python source line by line. Four things the source gets from outside are made explicit:

  \<^item> the AES block transformation itself (pycryptodome's C code) is a parameter:
    \<open>E key block\<close> encrypts one 16-byte block and \<open>D key block\<close> decrypts one. What the
    proofs need of it is stated by \<open>block_sized\<close> and \<open>block_cipher\<close>;
  \<^item> the key, which the source reads from the module constant \<open>AES_KEY\<close>, is an
    argument (\<open>key\<close>), so that statements about other keys can be made; the tool as
    shipped is the instance \<open>key = AES_KEY\<close>;
  \<^item> the bytes returned by \<open>get_random_bytes(BLOCK_SIZE)\<close> are an argument (\<open>rnd\<close>);
  \<^item> the file system is a map from paths to file contents, passed in and returned.

  The library calls \<open>pad\<close>, \<open>unpad\<close>, \<open>AES.new(key, AES.MODE_CBC, iv)\<close>,
  \<open>cipher.encrypt\<close> and \<open>cipher.decrypt\<close> are modelled after pycryptodome
  (Crypto.Util.Padding and the CBC mode object), every \<open>raise\<close> of theirs a branch.
  Console output is not modelled.
\<close>

subsection \<open>Bytes, exceptions, files\<close>

type_synonym byte = "8 word"
type_synonym bytes = "byte list"

text \<open>
  Every failure of the two library modules is a Python \<open>ValueError\<close>; the constructor
  records which \<open>raise\<close> it was (the message).
\<close>

datatype value_error =
    IncorrectKeyLength      \<comment> \<open>AES.new: "Incorrect AES key length (%d bytes)"\<close>
  | IncorrectIVLength       \<comment> \<open>AES.new, CBC: "Incorrect IV length (it must be 16 bytes long)"\<close>
  | DataNotBlockAligned     \<comment> \<open>encrypt/decrypt: "Data must be padded to 16 byte boundary in CBC mode"\<close>
  | ZeroLengthInput         \<comment> \<open>unpad: "Zero-length input cannot be unpadded"\<close>
  | InputNotPadded          \<comment> \<open>unpad: "Input data is not padded"\<close>
  | PaddingIncorrect        \<comment> \<open>unpad: "Padding is incorrect."\<close>
  | PKCS7PaddingIncorrect   \<comment> \<open>unpad: "PKCS#7 padding is incorrect."\<close>

datatype error =
    FileNotFoundError       \<comment> \<open>\<open>open(path, 'rb')\<close> on a path that names no file\<close>
  | ValueError value_error
  | SystemExit nat          \<comment> \<open>\<open>sys.exit(code)\<close>\<close>

text \<open>
  A file system is a map from path strings to contents. Directories are not modelled:
  \<open>os.makedirs\<close> leaves the map as it is and opening a file for writing always succeeds.
  A Python \<open>str\<close> is its UTF-8 bytes (a \<open>string\<close>); writing it in text mode stores
  those bytes (POSIX: no newline translation).
\<close>

type_synonym path = string
type_synonym fs = "path \<rightharpoonup> bytes"

definition encode_text :: "string \<Rightarrow> bytes" where
  "encode_text s = map (\<lambda>c. of_nat (of_char c)) s"

subsection \<open>Module constants\<close>


definition BLOCK_SIZE :: nat where
  "BLOCK_SIZE = 16"

subsection \<open>Crypto.Util.Padding\<close>

text \<open>
  \<^verbatim>\<open>padding_len = block_size - len(data_to_pad) % block_size\<close>,
  \<^verbatim>\<open>return data_to_pad + bchr(padding_len) * padding_len\<close> (style pkcs7).
\<close>

definition pad :: "bytes \<Rightarrow> nat \<Rightarrow> bytes" where
  "pad data_to_pad block_size =
    (let padding_len = block_size - length data_to_pad mod block_size
     in data_to_pad @ replicate padding_len (of_nat padding_len))"

text \<open>
  \<open>unpad\<close>, style pkcs7, with the checks in the order of the library's current
  releases. \<open>padded_data[-1]\<close> is the last byte (the data is not empty
  there), \<open>padded_data[-n:]\<close> the last \<open>n\<close> bytes and \<open>padded_data[:-n]\<close> all but
  the last \<open>n\<close>, for \<open>1 \<le> n \<le> len(padded_data)\<close>.
\<close>

definition unpad :: "bytes \<Rightarrow> nat \<Rightarrow> error + bytes" where
  "unpad padded_data block_size =
    (let pdata_len = length padded_data in
     if pdata_len = 0 then Inl (ValueError ZeroLengthInput)
     else if pdata_len mod block_size \<noteq> 0 then Inl (ValueError InputNotPadded)
     else
       let padding_len = unat (last padded_data) in
       if padding_len < 1 \<or> padding_len > min block_size pdata_len
       then Inl (ValueError PaddingIncorrect)
       else if drop (pdata_len - padding_len) padded_data
               \<noteq> replicate padding_len (of_nat padding_len)
       then Inl (ValueError PKCS7PaddingIncorrect)
       else Inr (take (pdata_len - padding_len) padded_data))"

subsection \<open>AES in CBC mode\<close>

type_synonym block_fn = "bytes \<Rightarrow> bytes \<Rightarrow> bytes"
  \<comment> \<open>key, 16-byte block, 16-byte block\<close>

definition valid_key :: "bytes \<Rightarrow> bool" where
  "valid_key key \<longleftrightarrow> length key = 16 \<or> length key = 24 \<or> length key = 32"

definition block_sized :: "block_fn \<Rightarrow> bool" where
  "block_sized F \<longleftrightarrow>
    (\<forall>key b. valid_key key \<longrightarrow> length b = 16 \<longrightarrow> length (F key b) = 16)"

definition block_cipher :: "block_fn \<Rightarrow> block_fn \<Rightarrow> bool" where
  "block_cipher E D \<longleftrightarrow>
    block_sized E \<and> block_sized D \<and>
    (\<forall>key b. valid_key key \<longrightarrow> length b = 16 \<longrightarrow> D key (E key b) = b)"

definition strxor :: "bytes \<Rightarrow> bytes \<Rightarrow> bytes" where
  "strxor a b = map2 (XOR) a b"

text \<open>The cipher object: the key and the IV it was created with.\<close>

record cbc_cipher =
  cipher_key :: bytes
  cipher_iv :: bytes

definition AES_new :: "bytes \<Rightarrow> bytes \<Rightarrow> error + cbc_cipher" where
  "AES_new key iv =
    (if \<not> valid_key key then Inl (ValueError IncorrectKeyLength)
     else if length iv \<noteq> 16 then Inl (ValueError IncorrectIVLength)
     else Inr \<lparr>cipher_key = key, cipher_iv = iv\<rparr>)"

text \<open>
  Chaining: each plaintext block is XORed with the previous ciphertext block (the IV for
  the first) and encrypted; decryption XORs each decrypted block with the previous
  ciphertext block.
\<close>

function cbc_encrypt_blocks :: "block_fn \<Rightarrow> bytes \<Rightarrow> bytes \<Rightarrow> bytes \<Rightarrow> bytes" where
  "cbc_encrypt_blocks E key prev data =
    (if data = [] then []
     else
       let c = E key (strxor (take 16 data) prev)
       in c @ cbc_encrypt_blocks E key c (drop 16 data))"
  by pat_completeness auto
termination
  by (relation "measure (\<lambda>(E, key, prev, data). length data)") auto

function cbc_decrypt_blocks :: "block_fn \<Rightarrow> bytes \<Rightarrow> bytes \<Rightarrow> bytes \<Rightarrow> bytes" where
  "cbc_decrypt_blocks D key prev data =
    (if data = [] then []
     else
       let c = take 16 data
       in strxor (D key c) prev @ cbc_decrypt_blocks D key c (drop 16 data))"
  by pat_completeness auto
termination
  by (relation "measure (\<lambda>(D, key, prev, data). length data)") auto

declare cbc_encrypt_blocks.simps [simp del]
declare cbc_decrypt_blocks.simps [simp del]

definition cipher_encrypt :: "block_fn \<Rightarrow> cbc_cipher \<Rightarrow> bytes \<Rightarrow> error + bytes" where
  "cipher_encrypt E cipher plaintext =
    (if length plaintext mod 16 \<noteq> 0 then Inl (ValueError DataNotBlockAligned)
     else Inr (cbc_encrypt_blocks E (cipher_key cipher) (cipher_iv cipher) plaintext))"

definition cipher_decrypt :: "block_fn \<Rightarrow> cbc_cipher \<Rightarrow> bytes \<Rightarrow> error + bytes" where
  "cipher_decrypt D cipher ciphertext =
    (if length ciphertext mod 16 \<noteq> 0 then Inl (ValueError DataNotBlockAligned)
     else Inr (cbc_decrypt_blocks D (cipher_key cipher) (cipher_iv cipher) ciphertext))"

subsection \<open>encrypt\_firmware and decrypt\_firmware\<close>

text \<open>
  Lines 58 to 61 and what lines 64 and 65 write: the artifact as a function of the key,
  the random bytes and the plaintext read from the input file.
\<close>

definition encrypt_bytes :: "block_fn \<Rightarrow> bytes \<Rightarrow> bytes \<Rightarrow> bytes \<Rightarrow> error + bytes" where
  "encrypt_bytes E key rnd plaintext =
    (let iv = rnd in
     case AES_new key iv of
       Inl e \<Rightarrow> Inl e
     | Inr cipher \<Rightarrow>
         let padded_data = pad plaintext BLOCK_SIZE in
         (case cipher_encrypt E cipher padded_data of
            Inl e \<Rightarrow> Inl e
          | Inr ciphertext \<Rightarrow> Inr (iv @ ciphertext)))"

definition encrypt_firmware ::
  "block_fn \<Rightarrow> bytes \<Rightarrow> bytes \<Rightarrow> path \<Rightarrow> path \<Rightarrow> fs \<Rightarrow> (error + unit) \<times> fs" where
  "encrypt_firmware E key rnd input_path output_path files =
    (case files input_path of
       None \<Rightarrow> (Inl FileNotFoundError, files)
     | Some plaintext \<Rightarrow>
         (case encrypt_bytes E key rnd plaintext of
            Inl e \<Rightarrow> (Inl e, files)
          | Inr artifact \<Rightarrow> (Inr (), files(output_path \<mapsto> artifact))))"

text \<open>Lines 79 to 84: the plaintext as a function of the key and the bytes read.\<close>

definition decrypt_bytes :: "block_fn \<Rightarrow> bytes \<Rightarrow> bytes \<Rightarrow> error + bytes" where
  "decrypt_bytes D key data =
    (let iv = take BLOCK_SIZE data;
         ciphertext = drop BLOCK_SIZE data in
     case AES_new key iv of
       Inl e \<Rightarrow> Inl e
     | Inr cipher \<Rightarrow>
         (case cipher_decrypt D cipher ciphertext of
            Inl e \<Rightarrow> Inl e
          | Inr padded_plaintext \<Rightarrow> unpad padded_plaintext BLOCK_SIZE))"

definition decrypt_firmware ::
  "block_fn \<Rightarrow> bytes \<Rightarrow> path \<Rightarrow> path \<Rightarrow> fs \<Rightarrow> (error + unit) \<times> fs" where
  "decrypt_firmware D key input_path output_path files =
    (case files input_path of
       None \<Rightarrow> (Inl FileNotFoundError, files)
     | Some data \<Rightarrow>
         (case decrypt_bytes D key data of
            Inl e \<Rightarrow> (Inl e, files)
          | Inr plaintext \<Rightarrow> (Inr (), files(output_path \<mapsto> plaintext))))"


subsection \<open>The command line (main)\<close>

text \<open>
  The namespace \<open>argparse\<close> returns: \<open>input\<close>, \<open>--version\<close> and \<open>--output\<close> are
  \<open>None\<close> when absent, \<open>--output-dir\<close> has the default \<open>ota_releases\<close>, the two
  flags are booleans.
\<close>

record args =
  input :: "string option"
  version :: "string option"
  output_dir :: string
  decrypt :: bool
  output_file :: "string option"  \<comment> \<open>\<open>args.output\<close> (\<open>output\<close> is a keyword)\<close>
  generate_key :: bool

text \<open>Python truth of an optional string: \<open>None\<close> and the empty string are false.\<close>

fun truthy :: "string option \<Rightarrow> bool" where
  "truthy None = False"
| "truthy (Some s) = (s \<noteq> [])"

text \<open>
  \<open>s.replace(old, new)\<close> for a non-empty \<open>old\<close>: every occurrence, left to right,
  without overlap. (The tool calls it with \<open>old = '.enc'\<close> only.)
\<close>

function str_replace :: "string \<Rightarrow> string \<Rightarrow> string \<Rightarrow> string" where
  "str_replace old new s =
    (if s = [] then []
     else if old \<noteq> [] \<and> take (length old) s = old
       then new @ str_replace old new (drop (length old) s)
     else hd s # str_replace old new (tl s))"
  by pat_completeness auto
termination
  by (relation "measure (\<lambda>(old, new, s). length s)") auto

declare str_replace.simps [simp del]

text \<open>\<open>os.path.join\<close> of two components (posixpath).\<close>

definition path_join :: "path \<Rightarrow> path \<Rightarrow> path" where
  "path_join a b =
    (if b \<noteq> [] \<and> hd b = CHR ''/'' then b
     else if a = [] \<or> last a = CHR ''/'' then a @ b
     else a @ ''/'' @ b)"

text \<open>
  \<open>generate_new_key\<close> draws 32 random bytes and prints them; it touches no file.
  \<open>main\<close> prints its messages and, apart from that, does the following.
\<close>

definition main ::
  "block_fn \<Rightarrow> block_fn \<Rightarrow> bytes \<Rightarrow> bytes \<Rightarrow> args \<Rightarrow> fs \<Rightarrow> (error + unit) \<times> fs" where
  "main E D key rnd a files =
    (if generate_key a then (Inr (), files)
     else if decrypt a then
       (case input a of
          None \<Rightarrow> (Inl (SystemExit 1), files)
        | Some inp \<Rightarrow>
            if inp = [] then (Inl (SystemExit 1), files)
            else
              let out = (if truthy (output_file a) then the (output_file a)
                         else str_replace ''.enc'' ''_decrypted.bin'' inp)
              in decrypt_firmware D key inp out files)
     else
       (case input a of
          None \<Rightarrow> (Inl (SystemExit 1), files)
        | Some inp \<Rightarrow>
            if inp = [] then (Inl (SystemExit 1), files)
            else if \<not> truthy (version a) then (Inl (SystemExit 1), files)
            else if files inp = None then (Inl (SystemExit 1), files)
            else
              let ver = the (version a);
                  output_filename = ver @ ''.enc'';
                  output_path = path_join (output_dir a) output_filename
              in
                (case encrypt_firmware E key rnd inp output_path files of
                   (Inl e, files') \<Rightarrow> (Inl e, files')
                 | (Inr u, files') \<Rightarrow>
                     let latest_path = path_join (output_dir a) ''latest.txt''
                     in (Inr (),
                         files'(latest_path \<mapsto>
                           encode_text (ver @ '',PUT_FIRMWARE_FILE_ID_HERE'' @ [CHR 0x0A]))))))"

subsection \<open>What the specification calls things\<close>

text \<open>
  The specification's words, for comparison with the code. A padded block sequence \<open>x\<close>
  carries well-formed PKCS#7 padding over the payload \<open>p\<close> when it is \<open>p\<close> followed by
  \<open>n\<close> bytes of value \<open>n\<close>, for some \<open>n\<close> from 1 to 16.
\<close>

definition pkcs7_padded :: "bytes \<Rightarrow> bytes \<Rightarrow> bool" where
  "pkcs7_padded p x \<longleftrightarrow> (\<exists>n\<in>{1..16}. x = p @ replicate n (of_nat n))"


subsection \<open>A small block cipher for concrete instances\<close>

text \<open>
  Adding the first 16 key bytes to a block, byte by byte, and subtracting them again:
  an instance of \<open>block_cipher\<close> on which the functions above can be evaluated.
\<close>

definition add_key :: block_fn where
  "add_key key b = map2 (+) b (take 16 key)"

definition sub_key :: block_fn where
  "sub_key key b = map2 (-) b (take 16 key)"


section \<open>Padding and chaining\<close>

lemma length_pad: "length (pad p 16) = 16 * (length p div 16 + 1)"
  unfolding pad_def Let_def by simp presburger

lemma unpad_pad: "unpad (pad p 16) 16 = Inr p"
proof -
  define n where "n = 16 - length p mod 16"
  have n1: "1 \<le> n" and n16: "n \<le> 16" unfolding n_def by presburger+
  have pd: "pad p 16 = p @ replicate n (of_nat n)"
    by (simp add: pad_def n_def)
  have len: "length (pad p 16) mod 16 = 0"
    by (simp add: length_pad)
  have ne: "pad p 16 \<noteq> []" using n1 pd by auto
  have lst: "last (pad p 16) = (of_nat n :: byte)"
    using n1 by (simp add: pd)
  have un: "unat (of_nat n :: byte) = n"
    using n16 by (simp add: unat_of_nat)
  show ?thesis
    unfolding unpad_def Let_def lst un
    using n1 n16 ne len by (simp add: pd)
qed

lemma length_strxor: "length (strxor a b) = min (length a) (length b)"
  by (simp add: strxor_def)

lemma strxor_cancel: "length a = length b \<Longrightarrow> strxor (strxor a b) b = a"
  unfolding strxor_def
  by (induction a b rule: list_induct2) (simp_all add: xor.assoc)

lemma drop_16_dvd: "data \<noteq> [] \<Longrightarrow> 16 dvd length data \<Longrightarrow> 16 \<le> length data \<and> 16 dvd length (drop 16 data)"
  by (auto dest: dvd_imp_le)

lemma length_cbc_encrypt_blocks:
  "block_sized E \<Longrightarrow> valid_key key \<Longrightarrow> length prev = 16 \<Longrightarrow> 16 dvd length data \<Longrightarrow>
   length (cbc_encrypt_blocks E key prev data) = length data"
proof (induction E key prev data rule: cbc_encrypt_blocks.induct)
  case (1 E key prev data)
  show ?case
  proof (cases "data = []")
    case True
    then show ?thesis by (subst cbc_encrypt_blocks.simps) simp
  next
    case False
    from drop_16_dvd[OF False "1.prems"(4)]
    have len: "16 \<le> length data" and d: "16 dvd length (drop 16 data)" by blast+
    have lx: "length (strxor (take 16 data) prev) = 16"
      using len "1.prems"(3) by (simp add: length_strxor)
    have lc: "length (E key (strxor (take 16 data) prev)) = 16"
      using "1.prems"(1,2) lx by (simp add: block_sized_def)
    have "length (cbc_encrypt_blocks E key (E key (strxor (take 16 data) prev)) (drop 16 data)) = length (drop 16 data)"
      using "1.IH"[OF False refl "1.prems"(1,2) lc d] .
    then show ?thesis
      using False lc len by (subst cbc_encrypt_blocks.simps) (simp add: Let_def)
  qed
qed

lemma length_cbc_decrypt_blocks:
  "block_sized D \<Longrightarrow> valid_key key \<Longrightarrow> length prev = 16 \<Longrightarrow> 16 dvd length data \<Longrightarrow>
   length (cbc_decrypt_blocks D key prev data) = length data"
proof (induction D key prev data rule: cbc_decrypt_blocks.induct)
  case (1 D key prev data)
  show ?case
  proof (cases "data = []")
    case True
    then show ?thesis by (subst cbc_decrypt_blocks.simps) simp
  next
    case False
    from drop_16_dvd[OF False "1.prems"(4)]
    have len: "16 \<le> length data" and d: "16 dvd length (drop 16 data)" by blast+
    have lt: "length (take 16 data) = 16" using len by simp
    have ld: "length (D key (take 16 data)) = 16"
      using "1.prems"(1,2) lt by (simp add: block_sized_def)
    have "length (cbc_decrypt_blocks D key (take 16 data) (drop 16 data)) = length (drop 16 data)"
      using "1.IH"[OF False refl "1.prems"(1,2) lt d] .
    then show ?thesis
      using False ld len "1.prems"(3)
      by (subst cbc_decrypt_blocks.simps) (simp add: Let_def length_strxor)
  qed
qed

lemma cbc_decrypt_encrypt:
  "block_cipher E D \<Longrightarrow> valid_key key \<Longrightarrow> length prev = 16 \<Longrightarrow> 16 dvd length data \<Longrightarrow>
   cbc_decrypt_blocks D key prev (cbc_encrypt_blocks E key prev data) = data"
proof (induction E key prev data rule: cbc_encrypt_blocks.induct)
  case (1 E key prev data)
  show ?case
  proof (cases "data = []")
    case True
    then show ?thesis by (simp add: cbc_encrypt_blocks.simps[of _ _ _ "[]"] cbc_decrypt_blocks.simps[of _ _ _ "[]"])
  next
    case False
    let ?x = "strxor (take 16 data) prev"
    let ?c = "E key ?x"
    let ?rest = "cbc_encrypt_blocks E key ?c (drop 16 data)"
    from drop_16_dvd[OF False "1.prems"(4)]
    have len: "16 \<le> length data" and d: "16 dvd length (drop 16 data)" by blast+
    have lx: "length ?x = 16"
      using len "1.prems"(3) by (simp add: length_strxor)
    have lc: "length ?c = 16" and inv: "D key ?c = ?x"
      using "1.prems"(1,2) lx by (simp_all add: block_cipher_def block_sized_def)
    have IH: "cbc_decrypt_blocks D key ?c ?rest = drop 16 data"
      using "1.IH"[OF False refl "1.prems"(1,2) lc d] .
    have enc: "cbc_encrypt_blocks E key prev data = ?c @ ?rest"
      using False by (subst cbc_encrypt_blocks.simps) (simp add: Let_def)
    have x: "strxor ?x prev = take 16 data"
      using len "1.prems"(3) by (simp add: strxor_cancel)
    have "cbc_decrypt_blocks D key prev (?c @ ?rest) = strxor (D key ?c) prev @ cbc_decrypt_blocks D key ?c ?rest"
    proof -
      have "?c @ ?rest \<noteq> []" using lc by auto
      moreover have "take 16 (?c @ ?rest) = ?c" "drop 16 (?c @ ?rest) = ?rest"
        using lc by simp_all
      ultimately show ?thesis
        using cbc_decrypt_blocks.simps[of D key prev "?c @ ?rest"]
        by (simp only: Let_def if_False)
    qed
    also have "\<dots> = take 16 data @ drop 16 data"
      by (simp only: inv x IH)
    finally show ?thesis by (simp add: enc)
  qed
qed

lemma valid_key_32: "length key = 32 \<Longrightarrow> valid_key key"
  by (simp add: valid_key_def)

lemma pad_dvd: "16 dvd length (pad p 16)"
  by (simp add: length_pad)

lemma encrypt_bytes_eq:
  "valid_key key \<Longrightarrow> length iv = 16 \<Longrightarrow>
   encrypt_bytes E key iv p = Inr (iv @ cbc_encrypt_blocks E key iv (pad p 16))"
  using pad_dvd[of p]
  by (simp add: encrypt_bytes_def AES_new_def cipher_encrypt_def BLOCK_SIZE_def Let_def
        mod_eq_0_iff_dvd)

lemma decrypt_bytes_eq:
  "valid_key key \<Longrightarrow> length iv = 16 \<Longrightarrow> 16 dvd length ct \<Longrightarrow>
   decrypt_bytes D key (iv @ ct) = unpad (cbc_decrypt_blocks D key iv ct) 16"
  by (simp add: decrypt_bytes_def AES_new_def cipher_decrypt_def BLOCK_SIZE_def Let_def
        mod_eq_0_iff_dvd)

lemma decrypt_encrypt_bytes:
  assumes "block_cipher E D" "valid_key key" "length iv = 16"
  shows "decrypt_bytes D key (iv @ cbc_encrypt_blocks E key iv (pad p 16)) = Inr p"
proof -
  have bs: "block_sized E" using assms(1) by (simp add: block_cipher_def)
  have len: "length (cbc_encrypt_blocks E key iv (pad p 16)) = length (pad p 16)"
    by (rule length_cbc_encrypt_blocks[OF bs assms(2,3) pad_dvd])
  have "decrypt_bytes D key (iv @ cbc_encrypt_blocks E key iv (pad p 16))
        = unpad (cbc_decrypt_blocks D key iv (cbc_encrypt_blocks E key iv (pad p 16))) 16"
    by (rule decrypt_bytes_eq[OF assms(2,3)]) (simp add: len pad_dvd)
  also have "\<dots> = unpad (pad p 16) 16"
    by (simp only: cbc_decrypt_encrypt[OF assms(1,2,3) pad_dvd])
  finally show ?thesis by (simp add: unpad_pad)
qed

lemma add_key_block_cipher: "block_cipher add_key sub_key"
proof -
  have inv: "map2 (-) (map2 (+) b k) k = b" if "length b = length k" for b k :: bytes
    using that by (induction b k rule: list_induct2) simp_all
  show ?thesis
    unfolding block_cipher_def block_sized_def add_key_def sub_key_def valid_key_def
    by (auto simp: inv)
qed

lemma encrypt_bytes_layout:
  assumes "block_sized E" and "length key = 32" and "length iv = 16"
  shows "encrypt_bytes E key iv p = Inr (iv @ cbc_encrypt_blocks E key iv (pad p BLOCK_SIZE))"
    and "length (cbc_encrypt_blocks E key iv (pad p BLOCK_SIZE)) = 16 * (length p div 16 + 1)"
proof -
  have vk: "valid_key key" by (rule valid_key_32[OF assms(2)])
  show "encrypt_bytes E key iv p = Inr (iv @ cbc_encrypt_blocks E key iv (pad p BLOCK_SIZE))"
    by (simp add: encrypt_bytes_eq[OF vk assms(3)] BLOCK_SIZE_def)
  show "length (cbc_encrypt_blocks E key iv (pad p BLOCK_SIZE)) = 16 * (length p div 16 + 1)"
    by (simp add: BLOCK_SIZE_def length_cbc_encrypt_blocks[OF assms(1) vk assms(3) pad_dvd] length_pad)
qed

lemma decrypt_bytes_short:
  assumes "valid_key key" and "length data < 16"
  shows "decrypt_bytes D key data = Inl (ValueError IncorrectIVLength)"
  using assms by (simp add: decrypt_bytes_def AES_new_def BLOCK_SIZE_def Let_def)

lemma decrypt_bytes_no_ciphertext:
  assumes "valid_key key" and "length data = 16"
  shows "decrypt_bytes D key data = Inl (ValueError ZeroLengthInput)"
  using assms
  by (simp add: decrypt_bytes_def AES_new_def BLOCK_SIZE_def Let_def cipher_decrypt_def
        cbc_decrypt_blocks.simps[of _ _ _ "[]"] unpad_def)

lemma decrypt_bytes_unaligned:
  assumes "valid_key key" and "16 \<le> length data" and "\<not> 16 dvd length (drop 16 data)"
  shows "decrypt_bytes D key data = Inl (ValueError DataNotBlockAligned)"
  using assms
  by (simp add: decrypt_bytes_def AES_new_def BLOCK_SIZE_def Let_def cipher_decrypt_def
        mod_eq_0_iff_dvd)

lemma unat_of_nat_byte: "n \<le> 16 \<Longrightarrow> unat (of_nat n :: byte) = n"
  by (simp add: unat_of_nat)

lemma unpad_Inr_iff:
  assumes "x \<noteq> []" and "16 dvd length x"
  shows "unpad x 16 = Inr p \<longleftrightarrow> pkcs7_padded p x"
proof
  assume u: "unpad x 16 = Inr p"
  let ?n = "unat (last x)"
  from u assms have n: "1 \<le> ?n" "?n \<le> 16" "?n \<le> length x"
    and d: "drop (length x - ?n) x = replicate ?n (of_nat ?n)"
    and t: "p = take (length x - ?n) x"
    by (auto simp: unpad_def Let_def mod_eq_0_iff_dvd split: if_splits)
  have "x = take (length x - ?n) x @ drop (length x - ?n) x" by simp
  then have "x = p @ replicate ?n (of_nat ?n)" using d t by simp
  moreover have "?n \<in> {1..16}" using n by simp
  ultimately show "pkcs7_padded p x" unfolding pkcs7_padded_def by (rule bexI)
next
  assume "pkcs7_padded p x"
  then obtain n where n: "1 \<le> n" "n \<le> 16" and x: "x = p @ replicate n (of_nat n)"
    unfolding pkcs7_padded_def by auto
  have lst: "last x = (of_nat n :: byte)" using n(1) by (simp add: x)
  have un: "unat (last x) = n" unfolding lst by (rule unat_of_nat_byte[OF n(2)])
  have len: "length x = length p + n" by (simp add: x)
  show "unpad x 16 = Inr p"
    unfolding unpad_def Let_def un
    using assms n by (simp add: mod_eq_0_iff_dvd len) (simp add: x)
qed

lemma unpad_cases:
  assumes "x \<noteq> []" and "16 dvd length x"
  shows "(\<exists>p. unpad x 16 = Inr p) \<or> unpad x 16 = Inl (ValueError PaddingIncorrect)
         \<or> unpad x 16 = Inl (ValueError PKCS7PaddingIncorrect)"
  using assms by (simp add: unpad_def Let_def mod_eq_0_iff_dvd)


lemma decrypt_bytes_unpad:
  assumes "block_sized D" and "valid_key key" and "32 \<le> length data"
    and "16 dvd length (drop 16 data)"
  shows "decrypt_bytes D key data
           = unpad (cbc_decrypt_blocks D key (take 16 data) (drop 16 data)) 16"
    and "cbc_decrypt_blocks D key (take 16 data) (drop 16 data) \<noteq> []"
    and "16 dvd length (cbc_decrypt_blocks D key (take 16 data) (drop 16 data))"
proof -
  have iv: "length (take 16 data) = 16" using assms(3) by simp
  have "decrypt_bytes D key (take 16 data @ drop 16 data)
          = unpad (cbc_decrypt_blocks D key (take 16 data) (drop 16 data)) 16"
    by (rule decrypt_bytes_eq[OF assms(2) iv assms(4)])
  then show "decrypt_bytes D key data
          = unpad (cbc_decrypt_blocks D key (take 16 data) (drop 16 data)) 16"
    by simp
  have len: "length (cbc_decrypt_blocks D key (take 16 data) (drop 16 data))
               = length (drop 16 data)"
    by (rule length_cbc_decrypt_blocks[OF assms(1,2) iv assms(4)])
  show "cbc_decrypt_blocks D key (take 16 data) (drop 16 data) \<noteq> []"
    using len assms(3) by auto
  show "16 dvd length (cbc_decrypt_blocks D key (take 16 data) (drop 16 data))"
    using len assms(4) by simp
qed

section \<open>The command line\<close>





lemma main_decrypt_mode:
  assumes "input a = Some inp" and "inp \<noteq> []" and "\<not> generate_key a" and "decrypt a"
  shows "main E D key iv a files =
           decrypt_firmware D key inp
             (if truthy (output_file a) then the (output_file a)
              else str_replace ''.enc'' ''_decrypted.bin'' inp) files"
  using assms by (simp add: main_def Let_def)


section \<open>Keys and blocks\<close>









section \<open>The claims\<close>

subsection \<open>C1: round trip\<close>

text \<open>
  C1. For every byte sequence \<open>p\<close> (the empty one included), every 32-byte key and every
  16-byte IV from the random source, encrypting \<open>p\<close> succeeds and decrypting the artifact
  under the same key returns exactly \<open>p\<close>. On files: \<open>encrypt_firmware\<close> writes the
  artifact to its output path, and \<open>decrypt_firmware\<close> run on that path writes \<open>p\<close>.
\<close>

theorem encrypt_decrypt_roundtrip:
  assumes "block_cipher E D" and "length key = 32" and "length iv = 16"
    and "files input_path = Some p"
  shows "\<exists>artifact.
           encrypt_bytes E key iv p = Inr artifact \<and>
           decrypt_bytes D key artifact = Inr p \<and>
           encrypt_firmware E key iv input_path enc_path files
             = (Inr (), files(enc_path \<mapsto> artifact)) \<and>
           decrypt_firmware D key enc_path output_path (files(enc_path \<mapsto> artifact))
             = (Inr (), files(enc_path \<mapsto> artifact, output_path \<mapsto> p))"
proof -
  let ?a = "iv @ cbc_encrypt_blocks E key iv (pad p 16)"
  have vk: "valid_key key" by (rule valid_key_32[OF assms(2)])
  have enc: "encrypt_bytes E key iv p = Inr ?a"
    by (rule encrypt_bytes_eq[OF vk assms(3)])
  have dec: "decrypt_bytes D key ?a = Inr p"
    by (rule decrypt_encrypt_bytes[OF assms(1) vk assms(3)])
  have "encrypt_firmware E key iv input_path enc_path files = (Inr (), files(enc_path \<mapsto> ?a))"
    by (simp add: encrypt_firmware_def assms(4) enc)
  moreover have "decrypt_firmware D key enc_path output_path (files(enc_path \<mapsto> ?a))
      = (Inr (), files(enc_path \<mapsto> ?a, output_path \<mapsto> p))"
    by (simp add: decrypt_firmware_def dec)
  ultimately show ?thesis using enc dec by blast
qed

theorem encrypt_decrypt_roundtrip_witness:
  "decrypt_bytes sub_key (map of_nat [1..<33])
     (projr (encrypt_bytes add_key (map of_nat [1..<33]) (map of_nat [100..<116]) [1, 2, 3]))
   = Inr [1, 2, 3] \<and>
   decrypt_bytes sub_key (map of_nat [1..<33])
     (projr (encrypt_bytes add_key (map of_nat [1..<33]) (map of_nat [100..<116]) []))
   = Inr []"
  using
    encrypt_decrypt_roundtrip[OF add_key_block_cipher,
      of "map of_nat [1..<33]" "map of_nat [100..<116]"
         "[''fw.bin'' \<mapsto> [1, 2, 3]]" "''fw.bin''" "[1, 2, 3]" "''fw.enc''" "''out.bin''"]
    encrypt_decrypt_roundtrip[OF add_key_block_cipher,
      of "map of_nat [1..<33]" "map of_nat [100..<116]"
         "[''fw.bin'' \<mapsto> []]" "''fw.bin''" "[]" "''fw.enc''" "''out.bin''"]
  by auto

subsection \<open>C2: the artifact's layout\<close>

text \<open>
  C2. For every plaintext \<open>p\<close>, encryption succeeds and the artifact is the 16-byte IV
  followed by the ciphertext (the CBC encryption of the padded plaintext): its first 16
  bytes are the IV, its length is 16 plus the ciphertext's, and the ciphertext's length is a
  positive multiple of 16. An empty plaintext gives one full block of ciphertext.
\<close>

theorem artifact_format:
  assumes "block_sized E" and "length key = 32" and "length iv = 16"
  shows "\<exists>ciphertext.
           encrypt_bytes E key iv p = Inr (iv @ ciphertext) \<and>
           ciphertext = cbc_encrypt_blocks E key iv (pad p BLOCK_SIZE) \<and>
           take 16 (iv @ ciphertext) = iv \<and>
           drop 16 (iv @ ciphertext) = ciphertext \<and>
           length (iv @ ciphertext) = 16 + length ciphertext \<and>
           0 < length ciphertext \<and>
           16 dvd length ciphertext \<and>
           (p = [] \<longrightarrow> length ciphertext = 16)"
proof -
  let ?ct = "cbc_encrypt_blocks E key iv (pad p BLOCK_SIZE)"
  note l = encrypt_bytes_layout[OF assms, of p]
  have "take 16 (iv @ ?ct) = iv" "drop 16 (iv @ ?ct) = ?ct"
       "length (iv @ ?ct) = 16 + length ?ct"
    using assms(3) by simp_all
  moreover have "0 < length ?ct" "16 dvd length ?ct" "p = [] \<longrightarrow> length ?ct = 16"
    unfolding l(2) by simp_all
  ultimately show ?thesis using l(1) by blast
qed

theorem artifact_format_witness:
  "take 16 (projr (encrypt_bytes add_key (map of_nat [1..<33]) (map of_nat [100..<116]) []))
     = map of_nat [100..<116] \<and>
   length (projr (encrypt_bytes add_key (map of_nat [1..<33]) (map of_nat [100..<116]) [])) = 32"
proof -
  have bs: "block_sized add_key"
    using add_key_block_cipher by (simp add: block_cipher_def)
  have k: "length (map of_nat [1..<33] :: bytes) = 32" by simp
  have i: "length (map of_nat [100..<116] :: bytes) = 16" by simp
  from artifact_format[OF bs k i, of "[]"] obtain ct where
    "encrypt_bytes add_key (map of_nat [1..<33]) (map of_nat [100..<116]) []
       = Inr (map of_nat [100..<116] @ ct)"
    "take 16 (map of_nat [100..<116] @ ct) = (map of_nat [100..<116] :: bytes)"
    "length (map of_nat [100..<116] @ ct) = 16 + length ct"
    "length ct = 16"
    by blast
  then show ?thesis by (simp del: upt_rec_numeral map_upt_eqI)
qed

subsection \<open>C3: malformed artifacts are rejected\<close>

text \<open>
  C3. An artifact shorter than 16 bytes, or whose length after the 16-byte IV is not a
  positive multiple of 16, is rejected: decryption raises and the file system is left as
  it was (no output file is written). What the specification calls MalformedArtifact is,
  in the code, the \<open>ValueError\<close> of one of the three length checks: the IV length check
  of \<open>AES.new\<close> (fewer than 16 bytes), the zero-length check of \<open>unpad\<close> (exactly 16
  bytes: no ciphertext) and the block alignment check of \<open>cipher.decrypt\<close>; never that
  of a padding check.
\<close>

theorem malformed_artifact_rejected:
  assumes "length key = 32" and "files input_path = Some data"
    and "length data < 16 \<or>
         \<not> (0 < length (drop 16 data) \<and> 16 dvd length (drop 16 data))"
  shows "let e = ValueError (if length data < 16 then IncorrectIVLength
                             else if length data = 16 then ZeroLengthInput
                             else DataNotBlockAligned)
         in decrypt_bytes D key data = Inl e \<and>
            decrypt_firmware D key input_path output_path files = (Inl e, files)"
proof -
  have vk: "valid_key key" by (rule valid_key_32[OF assms(1)])
  let ?e = "if length data < 16 then IncorrectIVLength
            else if length data = 16 then ZeroLengthInput else DataNotBlockAligned"
  have dec: "decrypt_bytes D key data = Inl (ValueError ?e)"
  proof (cases "length data < 16")
    case True
    then show ?thesis by (simp add: decrypt_bytes_short[OF vk])
  next
    case ge: False
    show ?thesis
    proof (cases "length data = 16")
      case True
      then show ?thesis by (simp add: decrypt_bytes_no_ciphertext[OF vk])
    next
      case False
      with ge assms(3) have "16 \<le> length data" "\<not> 16 dvd length (drop 16 data)"
        by auto
      from decrypt_bytes_unaligned[OF vk this] ge False show ?thesis by simp
    qed
  qed
  then have "decrypt_firmware D key input_path output_path files = (Inl (ValueError ?e), files)"
    by (simp add: decrypt_firmware_def assms(2))
  with dec show ?thesis by (simp add: Let_def)
qed

theorem malformed_artifact_rejected_witness:
  "decrypt_firmware sub_key (map of_nat [1..<33]) ''fw.enc'' ''fw.bin'' [''fw.enc'' \<mapsto> [1, 2, 3]]
     = (Inl (ValueError IncorrectIVLength), [''fw.enc'' \<mapsto> [1, 2, 3]]) \<and>
   decrypt_firmware sub_key (map of_nat [1..<33]) ''fw.enc'' ''fw.bin''
       [''fw.enc'' \<mapsto> map of_nat [100..<116]]
     = (Inl (ValueError ZeroLengthInput), [''fw.enc'' \<mapsto> map of_nat [100..<116]]) \<and>
   decrypt_firmware sub_key (map of_nat [1..<33]) ''fw.enc'' ''fw.bin''
       [''fw.enc'' \<mapsto> map of_nat [100..<117]]
     = (Inl (ValueError DataNotBlockAligned), [''fw.enc'' \<mapsto> map of_nat [100..<117]])"
proof -
  have k: "length (map of_nat [1..<33] :: bytes) = 32" by simp
  show ?thesis
    using
      malformed_artifact_rejected[OF k, of "[''fw.enc'' \<mapsto> [1, 2, 3]]" "''fw.enc''" "[1, 2, 3]"
        sub_key "''fw.bin''"]
      malformed_artifact_rejected[OF k, of "[''fw.enc'' \<mapsto> map of_nat [100..<116]]" "''fw.enc''"
        "map of_nat [100..<116]" sub_key "''fw.bin''"]
      malformed_artifact_rejected[OF k, of "[''fw.enc'' \<mapsto> map of_nat [100..<117]]" "''fw.enc''"
        "map of_nat [100..<117]" sub_key "''fw.bin''"]
    by (simp add: Let_def)
qed

subsection \<open>C4: padding rejection\<close>

text \<open>
  C4. For an artifact of at least 32 bytes whose length after the IV is a multiple of 16,
  decryption takes the first 16 bytes as IV, CBC-decrypts the rest, and then: it returns
  \<open>p\<close> exactly when the decrypted blocks are \<open>p\<close> followed by well-formed PKCS#7
  padding, and it fails with one of the two padding errors of \<open>unpad\<close> (the
  specification's PaddingInvalid) exactly when the decrypted blocks carry no well-formed
  padding.
\<close>

theorem padding_rejection:
  assumes "block_sized D" and "length key = 32" and "32 \<le> length data"
    and "16 dvd length (drop 16 data)"
  shows "let padded = cbc_decrypt_blocks D key (take 16 data) (drop 16 data) in
           (\<forall>p. decrypt_bytes D key data = Inr p \<longleftrightarrow> pkcs7_padded p padded) \<and>
           ((\<nexists>p. pkcs7_padded p padded) \<longleftrightarrow>
              decrypt_bytes D key data = Inl (ValueError PaddingIncorrect) \<or>
              decrypt_bytes D key data = Inl (ValueError PKCS7PaddingIncorrect))"
proof -
  let ?x = "cbc_decrypt_blocks D key (take 16 data) (drop 16 data)"
  note d = decrypt_bytes_unpad[OF assms(1) valid_key_32[OF assms(2)] assms(3,4)]
  have iff: "decrypt_bytes D key data = Inr p \<longleftrightarrow> pkcs7_padded p ?x" for p
    unfolding d(1) by (rule unpad_Inr_iff[OF d(2,3)])
  have cases: "(\<exists>p. decrypt_bytes D key data = Inr p)
      \<or> decrypt_bytes D key data = Inl (ValueError PaddingIncorrect)
      \<or> decrypt_bytes D key data = Inl (ValueError PKCS7PaddingIncorrect)"
    unfolding d(1) by (rule unpad_cases[OF d(2,3)])
  have "(\<nexists>p. pkcs7_padded p ?x) \<longleftrightarrow>
          decrypt_bytes D key data = Inl (ValueError PaddingIncorrect) \<or>
          decrypt_bytes D key data = Inl (ValueError PKCS7PaddingIncorrect)"
    using cases iff by (metis Inl_Inr_False)
  with iff show ?thesis by (simp add: Let_def)
qed

theorem padding_rejection_witness:
  "pkcs7_padded [1, 2, 3]
     (cbc_decrypt_blocks sub_key (map of_nat [1..<33]) (map of_nat [100..<116])
        [102, 105, 104, 110, 106, 106, 110, 110, 106, 106, 110, 110, 138, 138, 142, 142]) \<and>
   (\<nexists>p. pkcs7_padded p
     (cbc_decrypt_blocks sub_key (map of_nat [1..<33]) (map of_nat [100..<116])
        (map of_nat [1..<17]))) \<and>
   (\<nexists>p. pkcs7_padded p
     (cbc_decrypt_blocks sub_key (map of_nat [1..<33]) (map of_nat [100..<116])
        [101, 103, 105, 107, 109, 111, 113, 115, 117, 119, 121, 123, 125, 127, 129, 129]))"
proof -
  let ?K = "map of_nat [1..<33] :: bytes"
  let ?IV = "map of_nat [100..<116] :: bytes"
  let ?c1 = "[102, 105, 104, 110, 106, 106, 110, 110, 106, 106, 110, 110, 138, 138, 142, 142] :: bytes"
  let ?c2 = "map of_nat [1..<17] :: bytes"
  let ?c3 = "[101, 103, 105, 107, 109, 111, 113, 115, 117, 119, 121, 123, 125, 127, 129, 129] :: bytes"
  have bs: "block_sized sub_key"
    using add_key_block_cipher by (simp add: block_cipher_def)
  have k: "length ?K = 32" by simp
  have e1: "decrypt_bytes sub_key ?K (?IV @ ?c1) = Inr [1, 2, 3]" by code_simp
  have e2: "decrypt_bytes sub_key ?K (?IV @ ?c2) = Inl (ValueError PaddingIncorrect)"
    by code_simp
  have e3: "decrypt_bytes sub_key ?K (?IV @ ?c3) = Inl (ValueError PKCS7PaddingIncorrect)"
    by code_simp
  have l1: "32 \<le> length (?IV @ ?c1)" "16 dvd length (drop 16 (?IV @ ?c1))"
    by code_simp+
  have l2: "32 \<le> length (?IV @ ?c2)" "16 dvd length (drop 16 (?IV @ ?c2))"
    by code_simp+
  have l3: "32 \<le> length (?IV @ ?c3)" "16 dvd length (drop 16 (?IV @ ?c3))"
    by code_simp+
  have s1: "take 16 (?IV @ ?c1) = ?IV" "drop 16 (?IV @ ?c1) = ?c1"
    and s2: "take 16 (?IV @ ?c2) = ?IV" "drop 16 (?IV @ ?c2) = ?c2"
    and s3: "take 16 (?IV @ ?c3) = ?IV" "drop 16 (?IV @ ?c3) = ?c3"
    by simp_all
  from padding_rejection[OF bs k l1] e1
  have "pkcs7_padded [1, 2, 3] (cbc_decrypt_blocks sub_key ?K ?IV ?c1)"
    unfolding Let_def s1 by blast
  moreover from padding_rejection[OF bs k l2] e2
  have "\<nexists>p. pkcs7_padded p (cbc_decrypt_blocks sub_key ?K ?IV ?c2)"
    unfolding Let_def s2 by blast
  moreover from padding_rejection[OF bs k l3] e3
  have "\<nexists>p. pkcs7_padded p (cbc_decrypt_blocks sub_key ?K ?IV ?c3)"
    unfolding Let_def s3 by blast
  ultimately show ?thesis by blast
qed

subsection \<open>C5: the release descriptor\<close>




subsection \<open>C6: the all-zero key\<close>




subsection \<open>C7: decrypting under another key\<close>




subsection \<open>C8: the artifact's size\<close>

text \<open>
  C8. For every plaintext \<open>p\<close>, the artifact has exactly
  \<open>16 + 16 * (length p div 16 + 1)\<close> bytes: the padding adds between 1 and 16 bytes, so
  the artifact is longer than the plaintext by at least 17 and at most 32 bytes.
\<close>

theorem artifact_size:
  assumes "block_sized E" and "length key = 32" and "length iv = 16"
  shows "\<exists>artifact.
           encrypt_bytes E key iv p = Inr artifact \<and>
           length artifact = 16 + 16 * (length p div 16 + 1) \<and>
           length (pad p BLOCK_SIZE) - length p \<in> {1..16} \<and>
           length p + 17 \<le> length artifact \<and>
           length artifact \<le> length p + 32"
proof -
  let ?ct = "cbc_encrypt_blocks E key iv (pad p BLOCK_SIZE)"
  note l = encrypt_bytes_layout[OF assms, of p]
  have len: "length (iv @ ?ct) = 16 + 16 * (length p div 16 + 1)"
    using l(2) assms(3) by simp
  have pl: "length (pad p BLOCK_SIZE) = 16 * (length p div 16 + 1)"
    by (simp add: BLOCK_SIZE_def length_pad)
  have a: "length p + 1 \<le> 16 * (length p div 16 + 1)" "16 * (length p div 16 + 1) \<le> length p + 16"
    by presburger+
  have "length (pad p BLOCK_SIZE) - length p \<in> {1..16}"
    unfolding pl using a by auto
  moreover have "length p + 17 \<le> length (iv @ ?ct)" "length (iv @ ?ct) \<le> length p + 32"
    unfolding len using a by linarith+
  ultimately show ?thesis using l(1) len by blast
qed

theorem artifact_size_witness:
  "length (projr (encrypt_bytes add_key (map of_nat [1..<33]) (map of_nat [100..<116]) [1, 2, 3])) = 32 \<and>
   length (projr (encrypt_bytes add_key (map of_nat [1..<33]) (map of_nat [100..<116])
     (map of_nat [0..<16]))) = 48"
proof -
  have bs: "block_sized add_key"
    using add_key_block_cipher by (simp add: block_cipher_def)
  have k: "length (map of_nat [1..<33] :: bytes) = 32" by simp
  have i: "length (map of_nat [100..<116] :: bytes) = 16" by simp
  from artifact_size[OF bs k i, of "[1, 2, 3]"] artifact_size[OF bs k i, of "map of_nat [0..<16]"]
  show ?thesis by auto
qed

subsection \<open>C9: the artifact is a function of plaintext, key and IV\<close>



subsection \<open>C10: the input file\<close>





end
